theory Spec2Isabelle
  imports Main "HOL-Library.Sublist" "HOL-Library.Extended_Nat"
begin

section \<open>Python strings\<close>

text \<open>
  A Python \<open>str\<close> is a sequence of Unicode code points, so it is modelled as a list of
  natural numbers and \<open>len\<close> is \<open>length\<close>. Literals of the source are written
  \<open>str ''...''\<close>.
\<close>

type_synonym pystr = "nat list"

definition str :: "string \<Rightarrow> pystr" where
  "str s = map of_char s"

text \<open>\<open>sub in s\<close> for strings.\<close>

fun contains :: "pystr \<Rightarrow> pystr \<Rightarrow> bool" where
  "contains sub [] = (sub = [])"
| "contains sub (c # cs) = (prefix sub (c # cs) \<or> contains sub cs)"

text \<open>\<open>s.split(sep)\<close> for a separator of one character: never the empty list.\<close>

fun split_on :: "nat \<Rightarrow> pystr \<Rightarrow> pystr list" where
  "split_on sep [] = [[]]"
| "split_on sep (c # cs) =
     (if c = sep then [] # split_on sep cs
      else (case split_on sep cs of [] \<Rightarrow> [[c]] | p # ps \<Rightarrow> (c # p) # ps))"

text \<open>The code points for which \<open>str.isspace\<close> holds; \<open>str.strip()\<close> removes them at both ends.\<close>

definition is_space :: "nat \<Rightarrow> bool" where
  "is_space c =
     ((9 \<le> c \<and> c \<le> 13) \<or> (28 \<le> c \<and> c \<le> 32) \<or> c = 133 \<or> c = 160 \<or> c = 5760
      \<or> (8192 \<le> c \<and> c \<le> 8202) \<or> c = 8232 \<or> c = 8233 \<or> c = 8239 \<or> c = 8287 \<or> c = 12288)"

definition strip :: "pystr \<Rightarrow> pystr" where
  "strip s = rev (dropWhile is_space (rev (dropWhile is_space s)))"

text \<open>\<open>a or b\<close> on strings: the empty string is falsy.\<close>

definition str_or :: "pystr \<Rightarrow> pystr \<Rightarrow> pystr" where
  "str_or a b = (if a \<noteq> [] then a else b)"

section \<open>The standard library's URL parsing\<close>

text \<open>
  \<open>urlparse\<close> and \<open>parse_qs\<close> belong to Python's standard library, not to the program.
  The program only uses \<open>parse_qs(urlparse(url).query).get('v', [None])[0]\<close>, which may
  raise \<open>ValueError\<close> (the other two errors are raised by the browser and by \<open>open\<close>, see
  below). The identifier extractor takes this lookup as a parameter of type
  \<open>query_lookup\<close>; \<open>urllib_v\<close> below is a model of it after CPython 3.12, with the three
  library-internal functions it does not spell out kept as the fields of \<open>urllib\<close>.
\<close>

datatype error = ValueError | JavascriptException | OSError

type_synonym query_lookup = "pystr \<Rightarrow> error + pystr option"

record urllib =
  unquote :: "pystr \<Rightarrow> pystr"
  check_bracketed_host :: "pystr \<Rightarrow> bool"
  checknetloc :: "pystr \<Rightarrow> bool"

definition scheme_char :: "nat \<Rightarrow> bool" where
  "scheme_char c =
     ((97 \<le> c \<and> c \<le> 122) \<or> (65 \<le> c \<and> c \<le> 90) \<or> (48 \<le> c \<and> c \<le> 57)
      \<or> c = 43 \<or> c = 45 \<or> c = 46)"

definition ascii_alpha :: "nat \<Rightarrow> bool" where
  "ascii_alpha c = ((97 \<le> c \<and> c \<le> 122) \<or> (65 \<le> c \<and> c \<le> 90))"

text \<open>\<open>urlsplit\<close>: leading C0 controls and spaces are stripped, tab, LF and CR removed.\<close>

definition clean_url :: "pystr \<Rightarrow> pystr" where
  "clean_url url = filter (\<lambda>c. c \<noteq> 9 \<and> c \<noteq> 10 \<and> c \<noteq> 13) (dropWhile (\<lambda>c. c \<le> 32) url)"

text \<open>The rest of the URL after its scheme, when it has one.\<close>

definition drop_scheme :: "pystr \<Rightarrow> pystr" where
  "drop_scheme url =
     (let head = takeWhile (\<lambda>c. c \<noteq> 58) url in
      if 58 \<in> set url \<and> head \<noteq> [] \<and> ascii_alpha (hd head) \<and> list_all scheme_char head
      then drop (length head + 1) url else url)"

definition netloc_delim :: "nat \<Rightarrow> bool" where
  "netloc_delim c = (c = 47 \<or> c = 63 \<or> c = 35)"

text \<open>The network location and what follows it; unmatched brackets raise.\<close>

definition split_netloc :: "urllib \<Rightarrow> pystr \<Rightarrow> error + (pystr \<times> pystr)" where
  "split_netloc lib url =
     (if take 2 url = [47, 47] then
        (let netloc = takeWhile (\<lambda>c. \<not> netloc_delim c) (drop 2 url);
             rest = dropWhile (\<lambda>c. \<not> netloc_delim c) (drop 2 url) in
         if (91 \<in> set netloc \<and> 93 \<notin> set netloc) \<or> (93 \<in> set netloc \<and> 91 \<notin> set netloc)
         then Inl ValueError
         else if 91 \<in> set netloc \<and> 93 \<in> set netloc \<and>
                 \<not> check_bracketed_host lib
                     (takeWhile (\<lambda>c. c \<noteq> 93) (drop 1 (dropWhile (\<lambda>c. c \<noteq> 91) netloc)))
         then Inl ValueError
         else Inr (netloc, rest))
      else Inr ([], url))"

text \<open>\<open>urlparse(url).query\<close>: between the first \<open>?\<close> and the first \<open>#\<close> after the location.\<close>

definition urlparse_query :: "urllib \<Rightarrow> pystr \<Rightarrow> error + pystr" where
  "urlparse_query lib url =
     (case split_netloc lib (drop_scheme (clean_url url)) of
        Inl e \<Rightarrow> Inl e
      | Inr (netloc, rest) \<Rightarrow>
          (let no_fragment = takeWhile (\<lambda>c. c \<noteq> 35) rest;
               query = (if 63 \<in> set no_fragment
                        then drop 1 (dropWhile (\<lambda>c. c \<noteq> 63) no_fragment) else [])
           in if netloc = [] \<or> list_all (\<lambda>c. c < 128) netloc \<or> checknetloc lib netloc
              then Inr query else Inl ValueError))"

definition plus_to_space :: "pystr \<Rightarrow> pystr" where
  "plus_to_space s = map (\<lambda>c. if c = 43 then 32 else c) s"

text \<open>\<open>parse_qsl\<close> with its defaults: fields without \<open>=\<close> or with a blank value are dropped.\<close>

definition parse_field :: "urllib \<Rightarrow> pystr \<Rightarrow> (pystr \<times> pystr) list" where
  "parse_field lib name_value =
     (if name_value = [] \<or> 61 \<notin> set name_value then []
      else (let name = takeWhile (\<lambda>c. c \<noteq> 61) name_value;
                val = drop 1 (dropWhile (\<lambda>c. c \<noteq> 61) name_value)
            in if val = [] then []
               else [(unquote lib (plus_to_space name), unquote lib (plus_to_space val))]))"

definition parse_qsl :: "urllib \<Rightarrow> pystr \<Rightarrow> (pystr \<times> pystr) list" where
  "parse_qsl lib qs = concat (map (parse_field lib) (split_on 38 qs))"

text \<open>\<open>parse_qs(q).get('v', [None])[0]\<close>: the first value recorded under the name \<open>v\<close>.\<close>

definition urllib_v :: "urllib \<Rightarrow> query_lookup" where
  "urllib_v lib url =
     (case urlparse_query lib url of
        Inl e \<Rightarrow> Inl e
      | Inr q \<Rightarrow> Inr (map_of (parse_qsl lib q) (str ''v'')))"

section \<open>Identifier extractor\<close>

text \<open>\<open>[A-Za-z0-9_-]\<close>\<close>

definition id_char :: "nat \<Rightarrow> bool" where
  "id_char c =
     ((65 \<le> c \<and> c \<le> 90) \<or> (97 \<le> c \<and> c \<le> 122) \<or> (48 \<le> c \<and> c \<le> 57) \<or> c = 95 \<or> c = 45)"

text \<open>The ContentIdentifier pattern: eleven characters of that alphabet.\<close>

definition id_pattern :: "pystr \<Rightarrow> bool" where
  "id_pattern s = (length s = 11 \<and> list_all id_char s)"

text \<open>
  \<open>re.match(r'^[A-Za-z0-9_-]{11}$', url)\<close>. Without the MULTILINE flag \<open>$\<close> matches at
  the end of the string and also just before a line feed that ends the string.
\<close>

definition match_id :: "pystr \<Rightarrow> bool" where
  "match_id url = (id_pattern (take 11 url) \<and> (drop 11 url = [] \<or> drop 11 url = [10]))"

text \<open>\<open>url.split('/')[-1].split('?')[0]\<close>\<close>

definition last_segment :: "pystr \<Rightarrow> pystr" where
  "last_segment url = hd (split_on 63 (last (split_on 47 url)))"

definition extract_video_id :: "query_lookup \<Rightarrow> pystr \<Rightarrow> error + pystr option" where
  "extract_video_id parse_v url =
     (if contains (str ''youtu.be'') url then Inr (Some (last_segment url))
      else if contains (str ''youtube.com/watch'') url then parse_v url
      else if contains (str ''youtube.com/shorts'') url \<or> contains (str ''youtube.com/embed'') url
        then Inr (Some (last_segment url))
      else if match_id url then Inr (Some url)
      else Inr None)"

text \<open>Truthiness of the extractor's result: \<open>None\<close> and the empty string are falsy.\<close>

definition truthy_id :: "pystr option \<Rightarrow> bool" where
  "truthy_id v = (case v of None \<Rightarrow> False | Some s \<Rightarrow> s \<noteq> [])"

section \<open>Field extractor\<close>

text \<open>
  The browser is an external collaborator. A lookup \<open>find_elements(By.CSS_SELECTOR, sel)\<close>
  is modelled by the \<open>.text\<close> of each match, in document order: a scope (the whole page
  or one element) is a function from selectors to these lists.
\<close>

type_synonym element = "pystr \<Rightarrow> pystr list"

text \<open>\<open>_get_text(self, selector, default)\<close>, on the whole page.\<close>

definition get_text :: "element \<Rightarrow> pystr \<Rightarrow> pystr \<Rightarrow> pystr" where
  "get_text page selector dflt =
     (case page selector of [] \<Rightarrow> dflt | t # _ \<Rightarrow> t)"

text \<open>\<open>_get_element_text(self, parent, selector)\<close>, inside one element.\<close>

definition get_element_text :: "element \<Rightarrow> pystr \<Rightarrow> pystr" where
  "get_element_text parent selector =
     (case parent selector of [] \<Rightarrow> [] | t # _ \<Rightarrow> strip t)"

record comment =
  author :: pystr
  "text" :: pystr
  likes :: pystr
  timestamp :: pystr

text \<open>\<open>_extract_comment(self, comment_element)\<close>\<close>

definition extract_comment :: "element \<Rightarrow> comment option" where
  "extract_comment comment_element =
     (let a = get_element_text comment_element (str ''#author-text'');
          t = get_element_text comment_element (str ''#content-text'');
          l = str_or (get_element_text comment_element (str ''#vote-count-middle'')) (str ''0'');
          ts = str_or (get_element_text comment_element (str ''.published-time-text''))
                 (str ''Unknown'')
      in if a \<noteq> [] \<and> t \<noteq> [] then Some \<lparr>author = a, text = t, likes = l, timestamp = ts\<rparr>
         else None)"

section \<open>Page navigator and video information\<close>

text \<open>
  What the outside world answers during one run: the lookups on the loaded page; whether
  the page has an element \<open>#comments\<close>, which the script that scrolls to the comments
  dereferences; the \<open>ytd-comment-thread-renderer\<close> elements that the query of the
  collection loop finds after \<open>k\<close> scroll-forward actions; the two readings of the clock;
  and whether a file of a given name can be opened for writing.
\<close>

record env =
  page :: element
  comments_section :: bool
  comment_threads :: "nat \<Rightarrow> element list"
  clock_scrape :: pystr
  clock_file :: pystr
  can_open :: "pystr \<Rightarrow> bool"

record video_info =
  video_id :: pystr
  title :: pystr
  channel :: pystr
  views :: pystr
  upload_date :: pystr
  like_count :: pystr
  url :: pystr

text \<open>
  \<open>get_video_info(self, video_url)\<close>; the dictionary key \<open>likes\<close> is the field
  \<open>like_count\<close> here, since a comment has a field \<open>likes\<close> as well.
\<close>

definition get_video_info :: "query_lookup \<Rightarrow> env \<Rightarrow> pystr \<Rightarrow> error + video_info option" where
  "get_video_info parse_v w video_url =
     (case extract_video_id parse_v video_url of
        Inl e \<Rightarrow> Inl e
      | Inr None \<Rightarrow> Inr None
      | Inr (Some vid) \<Rightarrow>
          if vid = [] then Inr None
          else Inr (Some
            \<lparr>video_id = vid,
             title = get_text (page w) (str ''h1 yt-formatted-string'') (str ''Unknown Title''),
             channel = get_text (page w) (str ''ytd-channel-name a, #channel-name a'')
                         (str ''Unknown Channel''),
             views = get_text (page w) (str ''span.view-count'') (str ''Unknown Views''),
             upload_date = get_text (page w) (str ''#info-strings yt-formatted-string'')
                             (str ''Unknown Date''),
             like_count = get_text (page w) (str ''ytd-toggle-button-renderer yt-formatted-string'')
                            (str ''Unknown Likes''),
             url = str ''https://www.youtube.com/watch?v='' @ vid\<rparr>))"

section \<open>Incremental collector\<close>

record metadata =
  total_comments_collected :: int
  sort_order :: pystr
  scrape_date :: pystr

record result =
  info :: video_info
  collected :: "comment list"
  meta :: metadata

text \<open>The local variables of the loop in \<open>scrape_comments\<close>.\<close>

record loop_state =
  comments :: "comment list"
  last_comment_count :: nat
  consecutive_unchanged :: nat
  scroll_count :: nat

definition init_state :: loop_state where
  "init_state =
     \<lparr>comments = [], last_comment_count = 0, consecutive_unchanged = 0, scroll_count = 0\<rparr>"

text \<open>Truthiness of \<open>max_comments\<close>: \<open>None\<close> and \<open>0\<close> are falsy.\<close>

definition capped :: "int option \<Rightarrow> bool" where
  "capped max_comments = (case max_comments of None \<Rightarrow> False | Some m \<Rightarrow> m \<noteq> 0)"

text \<open>\<open>max_comments and len(comments) >= max_comments\<close>\<close>

definition cap_reached :: "int option \<Rightarrow> comment list \<Rightarrow> bool" where
  "cap_reached max_comments cs =
     (case max_comments of None \<Rightarrow> False | Some m \<Rightarrow> m \<noteq> 0 \<and> m \<le> int (length cs))"

text \<open>The condition of the \<open>while\<close>.\<close>

definition loop_cond :: "int option \<Rightarrow> loop_state \<Rightarrow> bool" where
  "loop_cond max_comments s =
     ((case max_comments of None \<Rightarrow> True | Some m \<Rightarrow> m = 0 \<or> int (length (comments s)) < m)
      \<and> scroll_count s < 30 \<and> consecutive_unchanged s < 3)"

text \<open>Tracking whether new elements were found.\<close>

definition track_growth :: "nat \<Rightarrow> loop_state \<Rightarrow> loop_state" where
  "track_growth n s =
     (if n > last_comment_count s
      then s\<lparr>last_comment_count := n, consecutive_unchanged := 0\<rparr>
      else s\<lparr>consecutive_unchanged := consecutive_unchanged s + 1\<rparr>)"

text \<open>\<open>min(len(comment_elements), len(comments) + 10, (max_comments or float('inf')))\<close>\<close>

definition end_index :: "int option \<Rightarrow> nat \<Rightarrow> nat \<Rightarrow> int" where
  "end_index max_comments n_elements n_comments =
     (let m = min (int n_elements) (int n_comments + 10) in
      case max_comments of None \<Rightarrow> m | Some c \<Rightarrow> if c = 0 then m else min m c)"

text \<open>The elements \<open>comment_elements[i]\<close> for \<open>i in range(start_index, end_index)\<close>.\<close>

definition window :: "int option \<Rightarrow> element list \<Rightarrow> nat \<Rightarrow> element list" where
  "window max_comments comment_elements n_comments =
     map (\<lambda>i. comment_elements ! i)
       [n_comments ..< nat (end_index max_comments (length comment_elements) n_comments)]"

text \<open>The \<open>for\<close> loop over the window, with its early \<open>break\<close>.\<close>

fun extract_range :: "int option \<Rightarrow> element list \<Rightarrow> comment list \<Rightarrow> comment list" where
  "extract_range max_comments [] cs = cs"
| "extract_range max_comments (e # es) cs =
     (case extract_comment e of
        None \<Rightarrow> extract_range max_comments es cs
      | Some c \<Rightarrow>
          if cap_reached max_comments (cs @ [c]) then cs @ [c]
          else extract_range max_comments es (cs @ [c]))"

text \<open>One pass through the body of the \<open>while\<close>, up to its break check.\<close>

definition loop_body :: "int option \<Rightarrow> element list \<Rightarrow> loop_state \<Rightarrow> loop_state" where
  "loop_body max_comments comment_elements s =
     (track_growth (length comment_elements) s)
       \<lparr>comments :=
          extract_range max_comments
            (window max_comments comment_elements (length (comments s))) (comments s)\<rparr>"

text \<open>
  The \<open>while\<close> loop. Every pass that does not break scrolls once, so the query of a pass
  sees the page after \<open>scroll_count\<close> scrolls.
\<close>

function collect_loop :: "int option \<Rightarrow> (nat \<Rightarrow> element list) \<Rightarrow> loop_state \<Rightarrow> loop_state" where
  "collect_loop max_comments threads s =
     (if loop_cond max_comments s then
        (let s' = loop_body max_comments (threads (scroll_count s)) s in
         if cap_reached max_comments (comments s') then s'
         else collect_loop max_comments threads (s'\<lparr>scroll_count := scroll_count s' + 1\<rparr>))
      else s)"
  by pat_completeness auto
termination
  by (relation "measure (\<lambda>(m, d, s). 30 - scroll_count s)")
     (auto simp: loop_cond_def loop_body_def track_growth_def)

text \<open>The states at the successive break checks of the same loop.\<close>

function collect_trace :: "int option \<Rightarrow> (nat \<Rightarrow> element list) \<Rightarrow> loop_state \<Rightarrow> loop_state list" where
  "collect_trace max_comments threads s =
     (if loop_cond max_comments s then
        (let s' = loop_body max_comments (threads (scroll_count s)) s in
         s' # (if cap_reached max_comments (comments s') then []
               else collect_trace max_comments threads (s'\<lparr>scroll_count := scroll_count s' + 1\<rparr>)))
      else [])"
  by pat_completeness auto
termination
  by (relation "measure (\<lambda>(m, d, s). 30 - scroll_count s)")
     (auto simp: loop_cond_def loop_body_def track_growth_def)

text \<open>\<open>xs[:m]\<close>\<close>

definition py_prefix :: "int \<Rightarrow> 'a list \<Rightarrow> 'a list" where
  "py_prefix m xs = (if 0 \<le> m then take (nat m) xs else take (nat (int (length xs) + m)) xs)"

text \<open>\<open>comments[:max_comments] if max_comments else comments\<close>\<close>

definition final_comments :: "int option \<Rightarrow> comment list \<Rightarrow> comment list" where
  "final_comments max_comments cs =
     (case max_comments of None \<Rightarrow> cs | Some m \<Rightarrow> if m = 0 then cs else py_prefix m cs)"

text \<open>\<open>min(len(comments), max_comments if max_comments else len(comments))\<close>\<close>

definition total_collected :: "int option \<Rightarrow> comment list \<Rightarrow> int" where
  "total_collected max_comments cs =
     (case max_comments of
        None \<Rightarrow> int (length cs)
      | Some m \<Rightarrow> if m = 0 then int (length cs) else min (int (length cs)) m)"

text \<open>
  \<open>scrape_comments(self, video_url, max_comments, sort_by)\<close>. The script
  \<open>window.scrollTo(0, document.querySelector('#comments').offsetTop)\<close> raises when the
  page has no element \<open>#comments\<close>, and nothing catches it. Sorting by newest only clicks
  in the browser; the keys \<open>video_info\<close>, \<open>comments\<close> and \<open>metadata\<close> of the result are
  the fields \<open>info\<close>, \<open>collected\<close> and \<open>meta\<close>.
\<close>

definition scrape_comments ::
  "query_lookup \<Rightarrow> env \<Rightarrow> pystr \<Rightarrow> int option \<Rightarrow> pystr \<Rightarrow> error + result option" where
  "scrape_comments parse_v w video_url max_comments sort_by =
     (case get_video_info parse_v w video_url of
        Inl e \<Rightarrow> Inl e
      | Inr None \<Rightarrow> Inr None
      | Inr (Some vi) \<Rightarrow>
          if \<not> comments_section w then Inl JavascriptException
          else
          (let cs = comments (collect_loop max_comments (comment_threads w) init_state) in
           Inr (Some
             \<lparr>info = vi,
              collected = final_comments max_comments cs,
              meta = \<lparr>total_comments_collected = total_collected max_comments cs,
                      sort_order = sort_by,
                      scrape_date = clock_scrape w\<rparr>\<rparr>)))"

section \<open>Exporters and the command line\<close>

datatype file_write = JsonFile pystr result | CsvFile pystr "comment list"

text \<open>
  The exporters give the files written and the exception raised, if any:
  \<open>open(filename, 'w')\<close> and \<open>to_csv\<close> raise \<open>OSError\<close> when the file cannot be opened, for
  instance when an identifier with a \<open>/\<close> makes the name a path into a missing directory.
\<close>

definition save_to_json :: "env \<Rightarrow> result \<Rightarrow> pystr \<Rightarrow> file_write list \<times> error option" where
  "save_to_json w data filename =
     (if can_open w filename then ([JsonFile filename data], None) else ([], Some OSError))"

definition save_to_csv :: "env \<Rightarrow> result \<Rightarrow> pystr \<Rightarrow> file_write list \<times> error option" where
  "save_to_csv w data filename =
     (if collected data \<noteq> [] then
        (if can_open w filename then ([CsvFile filename (collected data)], None)
         else ([], Some OSError))
      else ([], None))"

text \<open>
  \<open>main\<close> from the creation of the scraper on, given the answers to its prompts as it
  has processed them; the value is the list of files written, in order, and the exception
  that ends the run, if any (the browser is closed in both cases).
\<close>

definition main ::
  "query_lookup \<Rightarrow> env \<Rightarrow> pystr \<Rightarrow> int option \<Rightarrow> pystr \<Rightarrow> pystr
     \<Rightarrow> file_write list \<times> error option" where
  "main parse_v w video_url max_comments sort_option output_format =
     (case extract_video_id parse_v video_url of
        Inl e \<Rightarrow> ([], Some e)
      | Inr v \<Rightarrow>
          (let vid = (case v of None \<Rightarrow> str ''video'' | Some s \<Rightarrow> str_or s (str ''video''));
               base_filename = str ''yt_comments_'' @ vid @ str ''_'' @ clock_file w
           in case scrape_comments parse_v w video_url max_comments sort_option of
                Inl e \<Rightarrow> ([], Some e)
              | Inr None \<Rightarrow> ([], None)
              | Inr (Some data) \<Rightarrow>
                  (let j = (if output_format = str ''json'' \<or> output_format = str ''both''
                            then save_to_json w data (base_filename @ str ''.json'')
                            else ([], None))
                   in case snd j of
                        Some e \<Rightarrow> j
                      | None \<Rightarrow>
                          (let c = (if output_format = str ''csv'' \<or> output_format = str ''both''
                                    then save_to_csv w data (base_filename @ str ''.csv'')
                                    else ([], None))
                           in (fst j @ fst c, snd c)))))"

section \<open>Notions used by the properties\<close>

text \<open>The library's documented contract: a string without \<open>%\<close> is returned as it is.\<close>

definition unquote_plain :: "urllib \<Rightarrow> bool" where
  "unquote_plain lib = (\<forall>s. 37 \<notin> set s \<longrightarrow> unquote lib s = s)"

text \<open>An element from which a record is materialized.\<close>

definition valid_element :: "element \<Rightarrow> bool" where
  "valid_element e = (extract_comment e \<noteq> None)"

text \<open>
  The loop queries the page after 0 to 29 scrolls. The number of elements found never
  increases from one query to the next, or increases at each of them.
\<close>

definition never_grows :: "(nat \<Rightarrow> element list) \<Rightarrow> bool" where
  "never_grows threads = (\<forall>k<29. length (threads (Suc k)) \<le> length (threads k))"

definition always_grows :: "(nat \<Rightarrow> element list) \<Rightarrow> bool" where
  "always_grows threads = (\<forall>k<29. length (threads k) < length (threads (Suc k)))"

text \<open>
  Every element found by a query of the loop is valid. The page loads steadily: the number
  of elements found never decreases, and once a query finds no more elements than the one
  before, no later query finds more (the page has shown all it has).
\<close>

definition all_valid :: "(nat \<Rightarrow> element list) \<Rightarrow> bool" where
  "all_valid threads = (\<forall>k<30. \<forall>e \<in> set (threads k). valid_element e)"

definition loads_steadily :: "(nat \<Rightarrow> element list) \<Rightarrow> bool" where
  "loads_steadily threads =
     (\<forall>k<29. length (threads k) \<le> length (threads (Suc k)) \<and>
        (length (threads (Suc k)) = length (threads k) \<longrightarrow>
           (\<forall>j<30. k \<le> j \<longrightarrow> length (threads j) = length (threads k))))"

text \<open>The string starts with the character \<open>c\<close>.\<close>

definition starts_with :: "nat \<Rightarrow> pystr \<Rightarrow> bool" where
  "starts_with c s = (s \<noteq> [] \<and> hd s = c)"

text \<open>The string ends in a line feed.\<close>

definition ends_in_line_feed :: "pystr \<Rightarrow> bool" where
  "ends_in_line_feed s = (s \<noteq> [] \<and> last s = 10)"

text \<open>The page shows the same elements at every query of the loop.\<close>

definition static_page :: "(nat \<Rightarrow> element list) \<Rightarrow> element list \<Rightarrow> bool" where
  "static_page threads es = (\<forall>k<30. threads k = es)"

text \<open>
  The end of the processing window in the words of the specification:
  min(total elements found, collected-so-far + 10, cap or infinity).
\<close>

definition spec_window_end :: "int option \<Rightarrow> nat \<Rightarrow> nat \<Rightarrow> enat" where
  "spec_window_end cap found collected_so_far =
     min (enat found)
       (min (enat (collected_so_far + 10))
          (case cap of None \<Rightarrow> \<infinity> | Some c \<Rightarrow> if c = 0 then \<infinity> else enat (nat c)))"

text \<open>The number of comments in the result of a scrape, when it has one.\<close>

definition result_length :: "error + result option \<Rightarrow> nat option" where
  "result_length x =
     (case x of Inl e \<Rightarrow> None | Inr None \<Rightarrow> None | Inr (Some r) \<Rightarrow> Some (length (collected r)))"

section \<open>Concrete libraries and pages\<close>

text \<open>A library whose percent-decoding is the identity and whose checks pass.\<close>

definition plain_urllib :: urllib where
  "plain_urllib =
     \<lparr>unquote = (\<lambda>s. s), check_bracketed_host = (\<lambda>h. True), checknetloc = (\<lambda>n. True)\<rparr>"

text \<open>A comment element with an author and a text, and one with nothing inside.\<close>

definition good_comment :: element where
  "good_comment selector =
     (if selector = str ''#author-text'' then [str '' @ann '']
      else if selector = str ''#content-text'' then [str ''first!'']
      else [])"

definition blank_comment :: element where
  "blank_comment selector = []"

text \<open>A page with a title and nothing else that the video information reads.\<close>

definition sample_page :: element where
  "sample_page selector = (if selector = str ''h1 yt-formatted-string'' then [str ''Title''] else [])"

text \<open>A page that shows the same comment elements at every query.\<close>

definition static_env :: "element list \<Rightarrow> env" where
  "static_env es =
     \<lparr>page = sample_page, comments_section = True, comment_threads = (\<lambda>k. es),
      clock_scrape = str ''2024-01-01 00:00:00'', clock_file = str ''20240101_0000'',
      can_open = (\<lambda>f. True)\<rparr>"

text \<open>A page whose comments are rendered only after three scrolls.\<close>

definition late_env :: "element list \<Rightarrow> env" where
  "late_env es =
     \<lparr>page = sample_page, comments_section = True,
      comment_threads = (\<lambda>k. if k < 3 then [] else es),
      clock_scrape = str ''2024-01-01 00:00:00'', clock_file = str ''20240101_0000'',
      can_open = (\<lambda>f. True)\<rparr>"

text \<open>A page that shows one more comment element after every scroll.\<close>

definition growing_env :: env where
  "growing_env =
     \<lparr>page = sample_page, comments_section = True,
      comment_threads = (\<lambda>k. replicate (Suc k) good_comment),
      clock_scrape = str ''2024-01-01 00:00:00'', clock_file = str ''20240101_0000'',
      can_open = (\<lambda>f. True)\<rparr>"

text \<open>A page that loads twenty more comments with every scroll.\<close>

definition loading_env :: env where
  "loading_env =
     \<lparr>page = sample_page, comments_section = True,
      comment_threads = (\<lambda>k. replicate (20 * Suc k) good_comment),
      clock_scrape = str ''2024-01-01 00:00:00'', clock_file = str ''20240101_0000'',
      can_open = (\<lambda>f. True)\<rparr>"

text \<open>A page without an element \<open>#comments\<close>.\<close>

definition bare_env :: env where
  "bare_env =
     \<lparr>page = sample_page, comments_section = False, comment_threads = (\<lambda>k. []),
      clock_scrape = str ''2024-01-01 00:00:00'', clock_file = str ''20240101_0000'',
      can_open = (\<lambda>f. True)\<rparr>"

section \<open>Properties\<close>

subsection \<open>Strings\<close>

lemma split_on_not_Nil: "split_on sep s \<noteq> []"
  by (induction s) (auto split: list.splits)

lemma hd_split_on: "hd (split_on sep s) = takeWhile (\<lambda>c. c \<noteq> sep) s"
  by (induction s) (auto split: list.splits simp: split_on_not_Nil)

lemma last_split_on_free: "sep \<notin> set (last (split_on sep s))"
  by (induction s) (auto split: list.splits simp: split_on_not_Nil)

lemma last_segment_free: "47 \<notin> set (last_segment u) \<and> 63 \<notin> set (last_segment u)"
proof -
  have "set (last_segment u) \<subseteq> set (last (split_on 47 u))"
    unfolding last_segment_def hd_split_on by (auto dest: set_takeWhileD)
  moreover have "63 \<notin> set (last_segment u)"
    unfolding last_segment_def hd_split_on by (auto dest: set_takeWhileD)
  ultimately show ?thesis
    using last_split_on_free [of 47 u] by auto
qed

lemma contains_sublist: "contains sub s = sublist sub s"
  by (induction s) (auto simp: sublist_Cons_right)

lemma strip_suffix:
  "dropWhile is_space s = strip s @ rev (takeWhile is_space (rev (dropWhile is_space s)))"
proof -
  define r where "r = rev (dropWhile is_space s)"
  have "rev r = rev (takeWhile is_space r @ dropWhile is_space r)"
    by simp
  also have "\<dots> = rev (dropWhile is_space r) @ rev (takeWhile is_space r)"
    by (rule rev_append)
  finally show ?thesis
    by (simp add: strip_def r_def)
qed

lemma strip_decomp:
  "\<exists>a b. s = a @ strip s @ b \<and> list_all is_space a \<and> list_all is_space b"
proof (intro exI conjI)
  show "s = takeWhile is_space s @ strip s @ rev (takeWhile is_space (rev (dropWhile is_space s)))"
    using strip_suffix [of s] by (metis takeWhile_dropWhile_id)
  show "list_all is_space (takeWhile is_space s)"
    by (auto simp: list_all_iff dest: set_takeWhileD)
  show "list_all is_space (rev (takeWhile is_space (rev (dropWhile is_space s))))"
    by (auto simp: list_all_iff dest: set_takeWhileD)
qed

lemma strip_ends:
  assumes "strip s \<noteq> []"
  shows "\<not> is_space (hd (strip s)) \<and> \<not> is_space (last (strip s))"
proof
  have ne: "dropWhile is_space s \<noteq> []"
    using assms by (cases "dropWhile is_space s") (simp_all add: strip_def)
  have "hd (strip s) = hd (dropWhile is_space s)"
    using assms strip_suffix [of s] by (metis hd_append2)
  then show "\<not> is_space (hd (strip s))"
    using ne hd_dropWhile [of is_space s] by simp
  have "last (strip s) = hd (dropWhile is_space (rev (dropWhile is_space s)))"
    using assms by (simp add: strip_def last_rev)
  then show "\<not> is_space (last (strip s))"
    using assms hd_dropWhile [of is_space "rev (dropWhile is_space s)"] by (simp add: strip_def)
qed

subsection \<open>The identifier extractor\<close>

lemma extract_bare: "extract_video_id parse_v (str ''abcEFG01234'') = Inr (Some (str ''abcEFG01234''))"
  by (simp add: extract_video_id_def match_id_def id_pattern_def id_char_def str_def)

lemma plain_urllib_plain: "unquote_plain plain_urllib"
  by (simp add: unquote_plain_def plain_urllib_def)

lemma split_on_count: "length (split_on sep s) = Suc (length (filter (\<lambda>c. c = sep) s))"
  by (induction s) (auto split: list.splits simp: split_on_not_Nil)

lemma split_on_single: "sep \<notin> set s \<Longrightarrow> split_on sep s = [s]"
  by (induction s) auto

lemma last_split_on_append:
  "sep \<notin> set b \<Longrightarrow> last (split_on sep (a @ sep # b)) = b"
proof (induction a)
  case Nil
  then show ?case
    by (simp add: split_on_single)
next
  case (Cons c a)
  show ?case
  proof (cases "c = sep")
    case True
    then show ?thesis
      using Cons by (simp add: split_on_not_Nil)
  next
    case False
    obtain p ps where sp: "split_on sep (a @ sep # b) = p # ps"
      by (cases "split_on sep (a @ sep # b)") (simp_all add: split_on_not_Nil)
    have "2 \<le> length (split_on sep (a @ sep # b))"
      unfolding split_on_count by simp
    then have "ps \<noteq> []"
      unfolding sp by auto
    then show ?thesis
      using Cons False sp by simp
  qed
qed

lemma takeWhile_stop: "c \<notin> set i \<Longrightarrow> takeWhile (\<lambda>x. x \<noteq> c) (i @ c # r) = i"
  by (induction i) auto

lemma takeWhile_all: "c \<notin> set i \<Longrightarrow> takeWhile (\<lambda>x. x \<noteq> c) i = i"
  by (induction i) auto

lemma last_segment_shape:
  assumes "47 \<notin> set i" and "63 \<notin> set i" and "47 \<notin> set q" and "q = [] \<or> starts_with 63 q"
  shows "last_segment (p @ [47] @ i @ q) = i"
proof -
  have "last (split_on 47 (p @ 47 # (i @ q))) = i @ q"
    using assms(1,3) by (intro last_split_on_append) simp
  then have "last_segment (p @ [47] @ i @ q) = takeWhile (\<lambda>c. c \<noteq> 63) (i @ q)"
    by (simp add: last_segment_def hd_split_on)
  also have "\<dots> = i"
    using assms(2,4) by (cases q) (auto simp: starts_with_def takeWhile_stop takeWhile_all)
  finally show ?thesis .
qed

lemma id_chars:
  assumes "id_pattern i"
  shows "i \<noteq> []" and "9 \<notin> set i" and "10 \<notin> set i" and "13 \<notin> set i" and "35 \<notin> set i"
    and "37 \<notin> set i" and "38 \<notin> set i" and "43 \<notin> set i" and "46 \<notin> set i"
    and "47 \<notin> set i" and "61 \<notin> set i" and "63 \<notin> set i"
  using assms by (auto simp: id_pattern_def list_all_iff id_char_def)

lemma contains_set: "contains sub s \<Longrightarrow> set sub \<subseteq> set s"
  by (simp add: contains_sublist set_mono_sublist)

lemma id_no_marker:
  assumes "id_pattern i" and "46 \<in> set m"
  shows "\<not> contains m i"
  using assms id_chars(9) [OF assms(1)] contains_set [of m i] by auto

lemma extract_id:
  assumes "id_pattern i"
  shows "extract_video_id parse_v i = Inr (Some i)"
proof -
  have "\<not> contains (str ''youtu.be'') i" "\<not> contains (str ''youtube.com/watch'') i"
    "\<not> contains (str ''youtube.com/shorts'') i" "\<not> contains (str ''youtube.com/embed'') i"
    using assms by (intro id_no_marker; simp add: str_def)+
  moreover have "match_id i"
    using assms by (simp add: match_id_def id_pattern_def)
  ultimately show ?thesis
    by (simp add: extract_video_id_def)
qed

lemma takeWhile_pass:
  "c \<notin> set i \<Longrightarrow> takeWhile (\<lambda>x. x \<noteq> c) (i @ r) = i @ takeWhile (\<lambda>x. x \<noteq> c) r"
  by (induction i) auto

lemma split_on_first: "\<exists>ps. split_on sep s = takeWhile (\<lambda>c. c \<noteq> sep) s # ps"
  using hd_split_on [of sep s] split_on_not_Nil [of sep s] by (cases "split_on sep s") auto

lemma parse_field_v:
  assumes "unquote_plain lib" and "id_pattern i"
  shows "parse_field lib (str ''v='' @ i) = [(str ''v'', i)]"
proof -
  have u: "\<And>s. 37 \<notin> set s \<Longrightarrow> unquote lib s = s"
    using assms(1) by (simp add: unquote_plain_def)
  have p: "plus_to_space i = i"
    using id_chars(8) [OF assms(2)] unfolding plus_to_space_def by (intro map_idI) auto
  have ui: "unquote lib i = i"
    using id_chars(6) [OF assms(2)] by (rule u)
  show ?thesis
    using id_chars(1) [OF assms(2)]
    by (simp add: parse_field_def plus_to_space_def [of "[118]"] p ui u str_def)
qed

lemma parse_qsl_v:
  assumes "unquote_plain lib" and "id_pattern i" and "t = [] \<or> starts_with 38 t"
  shows "map_of (parse_qsl lib (str ''v='' @ i @ t)) (str ''v'') = Some i"
proof -
  have "takeWhile (\<lambda>c. c \<noteq> 38) (i @ t) = i"
    using assms(3) id_chars(7) [OF assms(2)]
    by (cases t) (auto simp: starts_with_def takeWhile_stop takeWhile_all)
  then have tw: "takeWhile (\<lambda>c. c \<noteq> 38) (str ''v='' @ i @ t) = str ''v='' @ i"
    by (simp add: str_def)
  obtain ps where "split_on 38 (str ''v='' @ i @ t) = (str ''v='' @ i) # ps"
    using split_on_first [of 38 "str ''v='' @ i @ t"] unfolding tw by blast
  then show ?thesis
    by (simp add: parse_qsl_def parse_field_v [OF assms(1,2)])
qed

lemma urlparse_query_watch:
  assumes "id_pattern i"
  shows "urlparse_query lib (str ''https://www.youtube.com/watch?v='' @ i @ q)
           = Inr (str ''v='' @ i @ takeWhile (\<lambda>c. c \<noteq> 35)
                    (filter (\<lambda>c. c \<noteq> 9 \<and> c \<noteq> 10 \<and> c \<noteq> 13) q))"
proof -
  let ?q = "filter (\<lambda>c. c \<noteq> 9 \<and> c \<noteq> 10 \<and> c \<noteq> 13) q"
  have fi: "filter (\<lambda>c. c \<noteq> 9 \<and> c \<noteq> 10 \<and> c \<noteq> 13) i = i"
    using id_chars(2,3,4) [OF assms] by (intro filter_True) auto
  have c1: "clean_url (str ''https://www.youtube.com/watch?v='' @ i @ q)
              = str ''https://www.youtube.com/watch?v='' @ i @ ?q"
    by (simp add: clean_url_def fi str_def)
  have c2: "drop_scheme (str ''https://www.youtube.com/watch?v='' @ i @ ?q)
              = str ''//www.youtube.com/watch?v='' @ i @ ?q"
    by (simp add: drop_scheme_def Let_def ascii_alpha_def scheme_char_def str_def)
  have c3: "split_netloc lib (str ''//www.youtube.com/watch?v='' @ i @ ?q)
              = Inr (str ''www.youtube.com'', str ''/watch?v='' @ i @ ?q)"
    by (simp add: split_netloc_def Let_def netloc_delim_def str_def)
  have c4: "takeWhile (\<lambda>c. c \<noteq> 35) (str ''/watch?v='' @ i @ ?q)
              = str ''/watch?v='' @ i @ takeWhile (\<lambda>c. c \<noteq> 35) ?q"
    using takeWhile_pass [OF id_chars(5) [OF assms], of ?q] by (simp add: str_def)
  have c5: "drop 1 (dropWhile (\<lambda>c. c \<noteq> 63) (str ''/watch?v='' @ i @ r)) = str ''v='' @ i @ r"
    and c6: "63 \<in> set (str ''/watch?v='' @ i @ r)" for r
    by (simp_all add: str_def)
  have c7: "list_all (\<lambda>c. c < 128) (str ''www.youtube.com'')"
    by (simp add: str_def)
  show ?thesis
    unfolding urlparse_query_def c1 c2 c3 sum.case prod.case Let_def c4
    by (simp only: c5 c6 c7 if_True simp_thms)
qed

lemma urllib_v_watch:
  assumes "unquote_plain lib" and "id_pattern i"
    and "q = [] \<or> starts_with 38 q \<or> starts_with 35 q"
  shows "urllib_v lib (str ''https://www.youtube.com/watch?v='' @ i @ q) = Inr (Some i)"
proof -
  let ?t = "takeWhile (\<lambda>c. c \<noteq> 35) (filter (\<lambda>c. c \<noteq> 9 \<and> c \<noteq> 10 \<and> c \<noteq> 13) q)"
  have "?t = [] \<or> starts_with 38 ?t"
    using assms(3) by (cases q) (auto simp: starts_with_def)
  then have "map_of (parse_qsl lib (str ''v='' @ i @ ?t)) (str ''v'') = Some i"
    using assms(1,2) by (intro parse_qsl_v)
  then show ?thesis
    unfolding urllib_v_def urlparse_query_watch [OF assms(2)] by simp
qed

lemma watch_marker:
  "contains (str ''youtube.com/watch'') (str ''https://www.youtube.com/watch?v='' @ r)"
  by (simp add: str_def)

text \<open>
  Claim C5 says that every string of one of the four shapes that carries the identifier
  \<open>abcEFG01234\<close> gives that identifier. The rules are tried in order and look for their
  markers anywhere in the string: a watch URL whose query also holds \<open>feature=youtu.be\<close>
  is taken by the short-link rule and gives \<open>watch\<close>, and a short link that ends in a
  slash gives the empty string.
\<close>

theorem extract_video_id_shapes_counterexample:
  "id_pattern (str ''abcEFG01234'') \<and>
   extract_video_id (urllib_v plain_urllib)
     (str ''https://www.youtube.com/watch?v=abcEFG01234&feature=youtu.be'')
     = Inr (Some (str ''watch'')) \<and>
   str ''watch'' \<noteq> str ''abcEFG01234'' \<and>
   extract_video_id (urllib_v plain_urllib) (str ''https://youtu.be/abcEFG01234/'') = Inr (Some []) \<and>
   [] \<noteq> str ''abcEFG01234''"
  by (simp add: extract_video_id_def last_segment_def id_pattern_def id_char_def str_def)




lemma match_id_whole:
  assumes "match_id u" and "\<not> ends_in_line_feed u"
  shows "id_pattern u"
proof -
  have "drop 11 u \<noteq> [10]"
  proof
    assume d: "drop 11 u = [10]"
    then have "last u = last (drop 11 u)"
      by (metis append_take_drop_id last_appendR list.distinct(1))
    with d have "u \<noteq> [] \<and> last u = 10"
      by auto
    with assms(2) show False
      by (simp add: ends_in_line_feed_def)
  qed
  with assms(1) have "id_pattern (take 11 u)" and "drop 11 u = []"
    by (auto simp: match_id_def)
  then show ?thesis
    by (metis append_take_drop_id append_Nil2)
qed



subsection \<open>The field extractor and comment records\<close>



lemma good_comment_author: "get_element_text good_comment (str ''#author-text'') = str ''@ann''"
  by (simp add: get_element_text_def good_comment_def strip_def is_space_def str_def)


lemma extract_comment_good:
  "extract_comment good_comment =
     Some \<lparr>author = str ''@ann'', text = str ''first!'', likes = str ''0'', timestamp = str ''Unknown''\<rparr>"
  by (simp add: extract_comment_def get_element_text_def good_comment_def strip_def is_space_def
      str_or_def str_def)

lemma good_comment_text: "get_element_text good_comment (str ''#content-text'') = str ''first!''"
  by (simp add: get_element_text_def good_comment_def strip_def is_space_def str_def)

lemma blank_comment_text: "get_element_text blank_comment sel = []"
  by (simp add: get_element_text_def blank_comment_def)

lemma extract_comment_blank: "extract_comment blank_comment = None"
  by (simp add: extract_comment_def get_element_text_def blank_comment_def)

text \<open>
  Claim C8. A comment element yields a record if and only if the extracted author and the
  extracted text are both non-empty; an element that yields none leaves the collected
  sequence of the extraction loop as it was.
\<close>

theorem extract_comment_iff:
  "(extract_comment e \<noteq> None) =
     (get_element_text e (str ''#author-text'') \<noteq> [] \<and>
      get_element_text e (str ''#content-text'') \<noteq> []) \<and>
   (extract_comment e = None \<longrightarrow>
      extract_range mc (e # es) cs = extract_range mc es cs \<and>
      length (extract_range mc [e] cs) = length cs)"
  by (simp add: extract_comment_def Let_def)

text \<open>
  The element with nothing inside yields no record and is skipped; the sample comment
  yields one.
\<close>

theorem extract_comment_iff_witness:
  "extract_comment blank_comment = None \<and>
   get_element_text blank_comment (str ''#author-text'') = [] \<and>
   extract_range (Some 25) [blank_comment, good_comment] [] = extract_range (Some 25) [good_comment] [] \<and>
   length (extract_range (Some 25) [blank_comment] []) = 0 \<and>
   extract_comment good_comment \<noteq> None \<and>
   get_element_text good_comment (str ''#author-text'') \<noteq> [] \<and>
   get_element_text good_comment (str ''#content-text'') \<noteq> []"
  using extract_comment_iff [of blank_comment "Some 25" "[good_comment]" "[]"]
    extract_comment_iff [of good_comment "Some 25" "[]" "[]"]
  by (simp add: extract_comment_blank extract_comment_good blank_comment_text
      good_comment_author good_comment_text str_def)

text \<open>
  Claim C10. In every record that is materialized the four fields are non-empty: the author
  and the text are the extracted ones, the likes are \<open>0\<close> when the like-count element is
  missing or its trimmed text is empty, and the timestamp is \<open>Unknown\<close> when the timestamp
  element is missing or its trimmed text is empty.
\<close>

theorem extract_comment_fields:
  "extract_comment e = Some c \<Longrightarrow>
     author c \<noteq> [] \<and> text c \<noteq> [] \<and> likes c \<noteq> [] \<and> timestamp c \<noteq> [] \<and>
     author c = get_element_text e (str ''#author-text'') \<and>
     text c = get_element_text e (str ''#content-text'') \<and>
     (e (str ''#vote-count-middle'') = [] \<or> strip (hd (e (str ''#vote-count-middle''))) = []
        \<longrightarrow> likes c = str ''0'') \<and>
     (get_element_text e (str ''#vote-count-middle'') \<noteq> []
        \<longrightarrow> likes c = get_element_text e (str ''#vote-count-middle'')) \<and>
     (e (str ''.published-time-text'') = [] \<or> strip (hd (e (str ''.published-time-text''))) = []
        \<longrightarrow> timestamp c = str ''Unknown'') \<and>
     (get_element_text e (str ''.published-time-text'') \<noteq> []
        \<longrightarrow> timestamp c = get_element_text e (str ''.published-time-text''))"
  by (cases "e (str ''#vote-count-middle'')"; cases "e (str ''.published-time-text'')")
     (auto simp: extract_comment_def Let_def str_or_def get_element_text_def str_def
           split: if_splits)

text \<open>
  The sample comment has neither a like count nor a timestamp and gets both sentinels.
\<close>

theorem extract_comment_fields_witness:
  "extract_comment good_comment =
     Some \<lparr>author = str ''@ann'', text = str ''first!'', likes = str ''0'', timestamp = str ''Unknown''\<rparr> \<and>
   good_comment (str ''#vote-count-middle'') = [] \<and>
   good_comment (str ''.published-time-text'') = [] \<and>
   str ''@ann'' \<noteq> [] \<and> str ''first!'' \<noteq> [] \<and> str ''0'' \<noteq> [] \<and> str ''Unknown'' \<noteq> []"
proof -
  have g: "good_comment (str ''#vote-count-middle'') = [] \<and>
           good_comment (str ''.published-time-text'') = []"
    by (simp add: good_comment_def str_def)
  have "author \<lparr>author = str ''@ann'', text = str ''first!'', likes = str ''0'',
                 timestamp = str ''Unknown''\<rparr> \<noteq> [] \<and>
        text \<lparr>author = str ''@ann'', text = str ''first!'', likes = str ''0'',
                 timestamp = str ''Unknown''\<rparr> \<noteq> [] \<and>
        likes \<lparr>author = str ''@ann'', text = str ''first!'', likes = str ''0'',
                 timestamp = str ''Unknown''\<rparr> \<noteq> [] \<and>
        timestamp \<lparr>author = str ''@ann'', text = str ''first!'', likes = str ''0'',
                 timestamp = str ''Unknown''\<rparr> \<noteq> []"
    using extract_comment_fields [OF extract_comment_good] by blast
  then have "str ''@ann'' \<noteq> [] \<and> str ''first!'' \<noteq> [] \<and> str ''0'' \<noteq> [] \<and> str ''Unknown'' \<noteq> []"
    by simp
  then show ?thesis
    using g extract_comment_good by blast
qed

subsection \<open>The collection loop\<close>

declare collect_loop.simps [simp del] collect_trace.simps [simp del]

lemma body_scroll [simp]: "scroll_count (loop_body mc es s) = scroll_count s"
  by (simp add: loop_body_def track_growth_def)

lemma body_last [simp]:
  "last_comment_count (loop_body mc es s) = max (last_comment_count s) (length es)"
  by (simp add: loop_body_def track_growth_def)

lemma body_stall [simp]:
  "consecutive_unchanged (loop_body mc es s) =
     (if last_comment_count s < length es then 0 else consecutive_unchanged s + 1)"
  by (simp add: loop_body_def track_growth_def)

lemma body_comments [simp]:
  "comments (loop_body mc es s) =
     extract_range mc (window mc es (length (comments s))) (comments s)"
  by (simp add: loop_body_def)

lemma loop_cond_alt:
  "loop_cond mc s =
     (\<not> cap_reached mc (comments s) \<and> scroll_count s < 30 \<and> consecutive_unchanged s < 3)"
  by (auto simp: loop_cond_def cap_reached_def split: option.splits)

lemma collect_loop_stop: "\<not> loop_cond mc s \<Longrightarrow> collect_loop mc threads s = s"
  by (subst collect_loop.simps) simp

lemma collect_loop_break:
  "loop_cond mc s \<Longrightarrow> cap_reached mc (comments (loop_body mc (threads (scroll_count s)) s)) \<Longrightarrow>
     collect_loop mc threads s = loop_body mc (threads (scroll_count s)) s"
  by (subst collect_loop.simps) (simp add: Let_def)

lemma collect_loop_step:
  "loop_cond mc s \<Longrightarrow> \<not> cap_reached mc (comments (loop_body mc (threads (scroll_count s)) s)) \<Longrightarrow>
     collect_loop mc threads s =
       collect_loop mc threads
         ((loop_body mc (threads (scroll_count s)) s)\<lparr>scroll_count := scroll_count s + 1\<rparr>)"
  by (subst collect_loop.simps) (simp add: Let_def)

lemma not_capped_never_reached: "\<not> capped mc \<Longrightarrow> \<not> cap_reached mc cs"
  by (auto simp: capped_def cap_reached_def split: option.splits)

lemma stall_run:
  assumes "\<forall>j. scroll_count s \<le> j \<and> j < 30 \<longrightarrow> length (threads j) \<le> last_comment_count s"
    and "consecutive_unchanged s \<le> 3"
    and "scroll_count s \<le> consecutive_unchanged s + 1"
  shows "consecutive_unchanged (collect_loop mc threads s) \<le> 3 \<and>
         scroll_count (collect_loop mc threads s) + consecutive_unchanged s \<le> scroll_count s + 3 \<and>
         (\<not> cap_reached mc (comments (collect_loop mc threads s)) \<longrightarrow>
            consecutive_unchanged (collect_loop mc threads s) = 3 \<and>
            scroll_count (collect_loop mc threads s) + consecutive_unchanged s = scroll_count s + 3)"
  using assms
proof (induction mc threads s rule: collect_loop.induct)
  case (1 mc threads s)
  let ?b = "loop_body mc (threads (scroll_count s)) s"
  show ?case
  proof (cases "loop_cond mc s")
    case False
    with "1.prems" show ?thesis
      by (auto simp: collect_loop_stop loop_cond_alt)
  next
    case True
    then have lt: "scroll_count s < 30" "consecutive_unchanged s < 3"
      by (simp_all add: loop_cond_alt)
    have nogrow: "\<not> last_comment_count s < length (threads (scroll_count s))"
      using "1.prems"(1) lt by (auto simp: not_less)
    show ?thesis
    proof (cases "cap_reached mc (comments ?b)")
      case c: True
      show ?thesis
        using c True nogrow lt by (simp add: collect_loop_break)
    next
      case c: False
      let ?n = "?b\<lparr>scroll_count := scroll_count ?b + 1\<rparr>"
      have ih: "consecutive_unchanged (collect_loop mc threads ?n) \<le> 3 \<and>
         scroll_count (collect_loop mc threads ?n) + consecutive_unchanged ?n \<le> scroll_count ?n + 3 \<and>
         (\<not> cap_reached mc (comments (collect_loop mc threads ?n)) \<longrightarrow>
            consecutive_unchanged (collect_loop mc threads ?n) = 3 \<and>
            scroll_count (collect_loop mc threads ?n) + consecutive_unchanged ?n = scroll_count ?n + 3)"
      proof (rule "1.IH" [OF True refl c])
        show "\<forall>j. scroll_count ?n \<le> j \<and> j < 30 \<longrightarrow> length (threads j) \<le> last_comment_count ?n"
          using "1.prems"(1) nogrow by (auto simp: max_def)
        show "consecutive_unchanged ?n \<le> 3"
          using lt nogrow by simp
        show "scroll_count ?n \<le> consecutive_unchanged ?n + 1"
          using "1.prems"(3) nogrow by simp
      qed
      have eq: "collect_loop mc threads s = collect_loop mc threads ?n"
        using collect_loop_step [where mc = mc and s = s and threads = threads, OF True c] by simp
      show ?thesis
        using ih nogrow unfolding eq by simp
    qed
  qed
qed

lemma never_grows_le:
  assumes "never_grows threads" and "j < 30"
  shows "length (threads j) \<le> length (threads 0)"
  using assms(2)
proof (induction j)
  case 0
  show ?case by simp
next
  case (Suc j)
  then have "length (threads (Suc j)) \<le> length (threads j)"
    using assms(1) by (simp add: never_grows_def)
  with Suc show ?case by simp
qed

lemma growth_run:
  assumes "always_grows threads" and "\<not> capped mc"
    and "scroll_count s \<le> 30" and "consecutive_unchanged s \<le> 1"
    and "scroll_count s < 30 \<longrightarrow>
           last_comment_count s < length (threads (scroll_count s)) \<or>
           (consecutive_unchanged s = 0 \<and> last_comment_count s \<le> length (threads (scroll_count s)))"
  shows "scroll_count (collect_loop mc threads s) = 30 \<and>
         consecutive_unchanged (collect_loop mc threads s) \<le> 1 \<and>
         length (collect_trace mc threads s) = 30 - scroll_count s"
  using assms
proof (induction mc threads s rule: collect_loop.induct)
  case (1 mc threads s)
  let ?b = "loop_body mc (threads (scroll_count s)) s"
  let ?n = "?b\<lparr>scroll_count := scroll_count ?b + 1\<rparr>"
  show ?case
  proof (cases "loop_cond mc s")
    case False
    with "1.prems" show ?thesis
      by (subst collect_trace.simps)
         (auto simp: collect_loop_stop loop_cond_alt not_capped_never_reached)
  next
    case True
    then have lt: "scroll_count s < 30"
      by (simp add: loop_cond_alt)
    have c: "\<not> cap_reached mc (comments ?b)"
      using "1.prems"(2) by (rule not_capped_never_reached)
    have ih: "scroll_count (collect_loop mc threads ?n) = 30 \<and>
         consecutive_unchanged (collect_loop mc threads ?n) \<le> 1 \<and>
         length (collect_trace mc threads ?n) = 30 - scroll_count ?n"
    proof (rule "1.IH" [OF True refl c "1.prems"(1,2)])
      show "scroll_count ?n \<le> 30"
        using lt by simp
      show "consecutive_unchanged ?n \<le> 1"
        using "1.prems"(5) lt by auto
      show "scroll_count ?n < 30 \<longrightarrow>
           last_comment_count ?n < length (threads (scroll_count ?n)) \<or>
           (consecutive_unchanged ?n = 0 \<and> last_comment_count ?n \<le> length (threads (scroll_count ?n)))"
      proof
        assume "scroll_count ?n < 30"
        then have "scroll_count s < 29" by simp
        then have "length (threads (scroll_count s)) < length (threads (Suc (scroll_count s)))"
          using "1.prems"(1) by (simp add: always_grows_def)
        then show "last_comment_count ?n < length (threads (scroll_count ?n)) \<or>
           (consecutive_unchanged ?n = 0 \<and> last_comment_count ?n \<le> length (threads (scroll_count ?n)))"
          using "1.prems"(5) lt by (auto simp: max_def)
      qed
    qed
    have eq: "collect_loop mc threads s = collect_loop mc threads ?n"
      using collect_loop_step [where mc = mc and s = s and threads = threads, OF True c] by simp
    have tr: "collect_trace mc threads s = ?b # collect_trace mc threads ?n"
      using True c by (subst collect_trace.simps) (simp add: Let_def)
    show ?thesis
      using ih lt unfolding eq tr by simp
  qed
qed

text \<open>
  Claim C2 says that, when the number of elements never increases, the loop stops with three
  consecutive passes without growth whatever the cap. On a page that always shows the same
  two valid comments, a cap of 1 is reached in the first pass: the loop breaks there, with
  no pass without growth and no scroll.
\<close>

theorem stall_termination_counterexample:
  "never_grows (comment_threads (static_env [good_comment, good_comment])) \<and>
   consecutive_unchanged
     (collect_loop (Some 1) (comment_threads (static_env [good_comment, good_comment])) init_state) = 0 \<and>
   scroll_count
     (collect_loop (Some 1) (comment_threads (static_env [good_comment, good_comment])) init_state) = 0"
proof -
  have c: "loop_cond (Some 1) init_state"
    by (simp add: loop_cond_def init_state_def)
  have w: "window (Some 1) [good_comment, good_comment] 0 = [good_comment]"
    by (simp add: window_def end_index_def)
  have r: "cap_reached (Some 1)
     (comments (loop_body (Some 1)
        (comment_threads (static_env [good_comment, good_comment]) (scroll_count init_state)) init_state))"
    by (simp add: static_env_def init_state_def w extract_comment_good cap_reached_def)
  show ?thesis
    unfolding collect_loop_break [where threads = "comment_threads (static_env [good_comment, good_comment])", OF c r]
    by (simp add: never_grows_def static_env_def init_state_def)
qed

text \<open>
  Claim C2, amended. When the number of elements found never increases from one query to
  the next, the loop stops with \<open>consecutive_unchanged\<close> equal to 3, after exactly three
  passes without growth (3 scrolls when the first query finds nothing, 4 when it finds
  elements, the first pass then counting as growth), unless the cap is reached before; in
  every case it stops after at most 4 scrolls.
\<close>

theorem stall_termination:
  "never_grows threads \<Longrightarrow>
     consecutive_unchanged (collect_loop mc threads init_state) \<le> 3 \<and>
     scroll_count (collect_loop mc threads init_state) \<le> 4 \<and>
     (\<not> cap_reached mc (comments (collect_loop mc threads init_state)) \<longrightarrow>
        consecutive_unchanged (collect_loop mc threads init_state) = 3 \<and>
        scroll_count (collect_loop mc threads init_state) = (if threads 0 = [] then 3 else 4))"
proof -
  assume ng: "never_grows threads"
  let ?b = "loop_body mc (threads (scroll_count init_state)) init_state"
  let ?n = "?b\<lparr>scroll_count := scroll_count init_state + 1\<rparr>"
  have i [simp]: "scroll_count init_state = 0" "consecutive_unchanged init_state = 0"
    "last_comment_count init_state = 0"
    by (simp_all add: init_state_def)
  show ?thesis
  proof (cases "loop_cond mc init_state")
    case False
    then show ?thesis
      by (auto simp: collect_loop_stop loop_cond_alt)
  next
    case True
    show ?thesis
    proof (cases "cap_reached mc (comments ?b)")
      case c: True
      have "collect_loop mc threads init_state = ?b"
        using collect_loop_break [where mc = mc and s = init_state and threads = threads, OF True c] .
      then show ?thesis
        using c by simp
    next
      case c: False
      have eq: "collect_loop mc threads init_state = collect_loop mc threads ?n"
        using collect_loop_step [where mc = mc and s = init_state and threads = threads, OF True c] .
      have "consecutive_unchanged (collect_loop mc threads ?n) \<le> 3 \<and>
         scroll_count (collect_loop mc threads ?n) + consecutive_unchanged ?n \<le> scroll_count ?n + 3 \<and>
         (\<not> cap_reached mc (comments (collect_loop mc threads ?n)) \<longrightarrow>
            consecutive_unchanged (collect_loop mc threads ?n) = 3 \<and>
            scroll_count (collect_loop mc threads ?n) + consecutive_unchanged ?n = scroll_count ?n + 3)"
      proof (rule stall_run)
        show "\<forall>j. scroll_count ?n \<le> j \<and> j < 30 \<longrightarrow> length (threads j) \<le> last_comment_count ?n"
          using never_grows_le [OF ng] by simp
        show "consecutive_unchanged ?n \<le> 3"
          by simp
        show "scroll_count ?n \<le> consecutive_unchanged ?n + 1"
          by simp
      qed
      then show ?thesis
        unfolding eq by (auto split: if_splits)
    qed
  qed
qed

text \<open>
  Without a cap, the page that always shows the same two comments stops the loop after 4
  scrolls with three passes without growth.
\<close>

theorem stall_termination_witness:
  "never_grows (comment_threads (static_env [good_comment, good_comment])) \<and>
   \<not> cap_reached None
     (comments (collect_loop None (comment_threads (static_env [good_comment, good_comment])) init_state)) \<and>
   consecutive_unchanged
     (collect_loop None (comment_threads (static_env [good_comment, good_comment])) init_state) = 3 \<and>
   scroll_count
     (collect_loop None (comment_threads (static_env [good_comment, good_comment])) init_state) = 4"
proof -
  have n: "never_grows (comment_threads (static_env [good_comment, good_comment]))"
    by (simp add: never_grows_def static_env_def)
  have z: "comment_threads (static_env [good_comment, good_comment]) 0 \<noteq> []"
    by (simp add: static_env_def)
  have c: "\<not> cap_reached None
     (comments (collect_loop None (comment_threads (static_env [good_comment, good_comment])) init_state))"
    by (simp add: cap_reached_def)
  show ?thesis
    using n z c stall_termination [OF n, of None] by simp
qed

text \<open>
  Claim C3. When every query finds more elements than the one before and no cap is set
  (\<open>None\<close> or 0), the loop makes exactly 30 passes and stops with \<open>scroll_count\<close> equal to
  30, not by the counter of passes without growth.
\<close>

theorem growth_termination:
  "always_grows threads \<Longrightarrow> \<not> capped mc \<Longrightarrow>
     scroll_count (collect_loop mc threads init_state) = 30 \<and>
     consecutive_unchanged (collect_loop mc threads init_state) < 3 \<and>
     length (collect_trace mc threads init_state) = 30"
  using growth_run [of threads mc init_state] by (simp add: init_state_def)

text \<open>
  The page that shows one more comment after every scroll, without a cap.
\<close>

theorem growth_termination_witness:
  "always_grows (comment_threads growing_env) \<and> \<not> capped None \<and>
   scroll_count (collect_loop None (comment_threads growing_env) init_state) = 30 \<and>
   length (collect_trace None (comment_threads growing_env) init_state) = 30"
proof -
  have g: "always_grows (comment_threads growing_env)"
    by (simp add: always_grows_def growing_env_def)
  have n: "\<not> capped None"
    by (simp add: capped_def)
  show ?thesis
    using g n growth_termination [OF g n] by simp
qed

subsection \<open>The processing window\<close>

lemma extract_range_prefix: "prefix cs (extract_range mc es cs)"
proof (induction es arbitrary: cs)
  case Nil
  show ?case by simp
next
  case (Cons e es)
  have "prefix cs (cs @ [c])" for c :: comment
    by simp
  moreover have "prefix cs (extract_range mc es (cs @ [c]))" for c
    using Cons [of "cs @ [c]"] by (meson prefix_order.order_trans prefixI)
  ultimately show ?case
    using Cons [of cs] by (simp split: option.splits)
qed

lemma extract_range_length: "length (extract_range mc es cs) \<le> length cs + length es"
proof (induction es arbitrary: cs)
  case Nil
  show ?case by simp
next
  case (Cons e es)
  show ?case
  proof (cases "extract_comment e")
    case None
    then show ?thesis
      using Cons [of cs] by simp
  next
    case (Some c)
    then show ?thesis
      using Cons [of "cs @ [c]"] by simp
  qed
qed

lemma window_drop_take:
  assumes "nat (end_index mc (length es) n) \<le> length es"
  shows "window mc es n = drop n (take (nat (end_index mc (length es) n)) es)"
  using assms by (intro nth_equalityI) (auto simp: window_def)

lemma end_index_in_loop:
  assumes "loop_cond mc s"
  shows "0 \<le> end_index mc (length es) (length (comments s))"
    and "nat (end_index mc (length es) (length (comments s))) \<le> length es"
    and "nat (end_index mc (length es) (length (comments s))) \<le> length (comments s) + 10"
    and "enat (nat (end_index mc (length es) (length (comments s))))
           = spec_window_end mc (length es) (length (comments s))"
  using assms
  by (auto simp: loop_cond_def end_index_def spec_window_end_def Let_def min_def
           split: option.splits)

text \<open>
  Claim C4. In every pass of the loop the window starts at the number of comments collected
  and ends at min(number of elements found, collected + 10, cap or infinity), as the
  specification words it; it is that slice of the elements found, holds at most 10 of them
  whatever their number, and the pass extends the collected sequence by at most 10 records.
\<close>

theorem extraction_window:
  "loop_cond mc s \<Longrightarrow>
     enat (nat (end_index mc (length es) (length (comments s))))
       = spec_window_end mc (length es) (length (comments s)) \<and>
     window mc es (length (comments s))
       = drop (length (comments s)) (take (nat (end_index mc (length es) (length (comments s)))) es) \<and>
     length (window mc es (length (comments s))) \<le> 10 \<and>
     comments (loop_body mc es s)
       = extract_range mc (window mc es (length (comments s))) (comments s) \<and>
     prefix (comments s) (comments (loop_body mc es s)) \<and>
     length (comments (loop_body mc es s)) \<le> length (comments s) + 10"
proof -
  assume c: "loop_cond mc s"
  have l: "length (window mc es (length (comments s))) \<le> 10"
    using end_index_in_loop(3) [OF c, of es] by (simp add: window_def)
  have "length (comments (loop_body mc es s))
          \<le> length (comments s) + length (window mc es (length (comments s)))"
    by (simp add: extract_range_length)
  then have "length (comments (loop_body mc es s)) \<le> length (comments s) + 10"
    using l by linarith
  then show ?thesis
    using l end_index_in_loop(4) [OF c, of es]
      window_drop_take [OF end_index_in_loop(2) [OF c, of es]]
    by (simp add: extract_range_prefix)
qed

text \<open>
  The first pass with a cap of 25 on a page with 40 comments: the window ends at 10.
\<close>

theorem extraction_window_witness:
  "loop_cond (Some 25) init_state \<and>
   spec_window_end (Some 25) (length (replicate 40 good_comment)) (length (comments init_state)) = enat 10 \<and>
   length (window (Some 25) (replicate 40 good_comment) (length (comments init_state))) \<le> 10 \<and>
   length (comments (loop_body (Some 25) (replicate 40 good_comment) init_state))
     \<le> length (comments init_state) + 10"
proof -
  have c: "loop_cond (Some 25) init_state"
    by (simp add: loop_cond_def init_state_def)
  have e: "spec_window_end (Some 25) (length (replicate 40 good_comment)) (length (comments init_state))
            = enat 10"
    by (simp add: spec_window_end_def init_state_def)
  have "length (window (Some 25) (replicate 40 good_comment) (length (comments init_state))) \<le> 10 \<and>
        length (comments (loop_body (Some 25) (replicate 40 good_comment) init_state))
          \<le> length (comments init_state) + 10"
    using extraction_window [OF c, of "replicate 40 good_comment"] by blast
  then show ?thesis
    using c e by blast
qed

subsection \<open>Runs without an identifier\<close>

lemma get_video_info_None:
  "(get_video_info parse_v w u = Inr None) =
     (extract_video_id parse_v u = Inr None \<or> extract_video_id parse_v u = Inr (Some []))"
  by (auto simp: get_video_info_def split: sum.splits option.splits)

lemma scrape_comments_Inl:
  "extract_video_id parse_v u = Inl e \<Longrightarrow> scrape_comments parse_v w u mc sort_by = Inl e"
  by (simp add: scrape_comments_def get_video_info_def)

lemma scrape_comments_Some:
  assumes "extract_video_id parse_v u = Inr (Some vid)" and "vid \<noteq> []" and "comments_section w"
  shows "\<exists>r. scrape_comments parse_v w u mc sort_by = Inr (Some r) \<and>
             collected r = final_comments mc (comments (collect_loop mc (comment_threads w) init_state)) \<and>
             total_comments_collected (meta r)
               = total_collected mc (comments (collect_loop mc (comment_threads w) init_state)) \<and>
             video_id (info r) = vid"
  using assms by (simp add: scrape_comments_def get_video_info_def Let_def)

lemma scrape_comments_no_section:
  assumes "extract_video_id parse_v u = Inr (Some vid)" and "vid \<noteq> []"
    and "\<not> comments_section w"
  shows "scrape_comments parse_v w u mc sort_by = Inl JavascriptException"
  using assms by (simp add: scrape_comments_def get_video_info_def)

lemma extract_bracket:
  "extract_video_id (urllib_v lib) (str ''http://[youtube.com/watch?v=abcEFG01234'') = Inl ValueError"
  by (simp add: extract_video_id_def urllib_v_def urlparse_query_def split_netloc_def
      drop_scheme_def clean_url_def netloc_delim_def ascii_alpha_def scheme_char_def str_def)

text \<open>
  Claim C9 says that a URL that yields no identifier makes the scrape return \<open>None\<close> and
  that nothing else cuts the scrape short. On a watch URL with an unmatched bracket in its
  host the URL parser raises: no identifier is yielded, and the exception leaves the scrape
  in place of a \<open>None\<close>. With an identifier, a page without an element \<open>#comments\<close> makes
  the scroll script raise, and the scrape ends there.
\<close>

theorem unresolved_identifier_aborts_counterexample:
  "extract_video_id (urllib_v plain_urllib) (str ''http://[youtube.com/watch?v=abcEFG01234'')
     = Inl ValueError \<and>
   scrape_comments (urllib_v plain_urllib) (static_env [good_comment])
     (str ''http://[youtube.com/watch?v=abcEFG01234'') (Some 25) (str ''top'') = Inl ValueError \<and>
   extract_video_id (urllib_v plain_urllib) (str ''abcEFG01234'') = Inr (Some (str ''abcEFG01234'')) \<and>
   scrape_comments (urllib_v plain_urllib) bare_env (str ''abcEFG01234'') (Some 25) (str ''top'')
     = Inl JavascriptException"
proof -
  have ne: "str ''abcEFG01234'' \<noteq> []"
    by (simp add: str_def)
  have "\<not> comments_section bare_env"
    by (simp add: bare_env_def)
  then have "scrape_comments (urllib_v plain_urllib) bare_env (str ''abcEFG01234'') (Some 25) (str ''top'')
     = Inl JavascriptException"
    using extract_bare ne by (rule scrape_comments_no_section [rotated 2])
  then show ?thesis
    using extract_bracket scrape_comments_Inl [OF extract_bracket] extract_bare by blast
qed


lemma extract_not_a_url: "extract_video_id parse_v (str ''not a url'') = Inr None"
  by (simp add: extract_video_id_def match_id_def id_pattern_def str_def)

lemma extract_empty_segment: "extract_video_id parse_v (str ''https://youtu.be/'') = Inr (Some [])"
  by (simp add: extract_video_id_def last_segment_def str_def)


subsection \<open>The cap\<close>

lemma extract_range_cap:
  "0 < m \<Longrightarrow> int (length cs) < m \<Longrightarrow> int (length (extract_range (Some m) es cs)) \<le> m"
proof (induction es arbitrary: cs)
  case Nil
  then show ?case by simp
next
  case (Cons e es)
  show ?case
  proof (cases "extract_comment e")
    case None
    then show ?thesis
      using Cons by simp
  next
    case (Some c)
    show ?thesis
    proof (cases "cap_reached (Some m) (cs @ [c])")
      case True
      then show ?thesis
        using Some Cons.prems by (simp add: cap_reached_def)
    next
      case False
      then have "int (length (cs @ [c])) < m"
        using Cons.prems by (simp add: cap_reached_def)
      then show ?thesis
        using Some False Cons.IH [of "cs @ [c]"] Cons.prems by simp
    qed
  qed
qed

lemma body_cap:
  assumes "loop_cond (Some 25) s"
  shows "length (comments (loop_body (Some 25) es s)) \<le> 25"
proof -
  have "int (length (comments s)) < 25"
    using assms by (simp add: loop_cond_def)
  then have "int (length (extract_range (Some 25) (window (Some 25) es (length (comments s))) (comments s))) \<le> 25"
    by (intro extract_range_cap) simp_all
  then show ?thesis
    by simp
qed

lemma trace_cap: "\<forall>t \<in> set (collect_trace (Some 25) threads s). length (comments t) \<le> 25"
proof (induction "Some (25::int)" threads s rule: collect_trace.induct)
  case (1 threads s)
  show ?case
  proof (cases "loop_cond (Some 25) s")
    case False
    then show ?thesis
      by (subst collect_trace.simps) simp
  next
    case True
    show ?thesis
      using True "1.hyps" [OF True refl] body_cap [OF True]
      by (subst collect_trace.simps) (auto simp: Let_def)
  qed
qed

lemma loop_cap:
  "length (comments s) \<le> 25 \<Longrightarrow> length (comments (collect_loop (Some 25) threads s)) \<le> 25"
proof (induction "Some (25::int)" threads s rule: collect_loop.induct)
  case (1 threads s)
  show ?case
  proof (cases "loop_cond (Some 25) s")
    case False
    then show ?thesis
      using "1.prems" by (simp add: collect_loop_stop)
  next
    case True
    show ?thesis
      using True "1.hyps" [OF True refl] body_cap [OF True] "1.prems"
      by (subst collect_loop.simps) (auto simp: Let_def)
  qed
qed

lemma final_comments_cap:
  "final_comments (Some 25) cs = take 25 cs"
  "length cs \<le> 25 \<Longrightarrow> total_collected (Some 25) cs = int (length (take 25 cs))"
  by (simp_all add: final_comments_def total_collected_def py_prefix_def)

lemma extract_range_valid:
  "0 < m \<Longrightarrow> \<forall>e \<in> set es. valid_element e \<Longrightarrow> int (length cs) < m \<Longrightarrow>
     length (extract_range (Some m) es cs) = min (nat m) (length cs + length es)"
proof (induction es arbitrary: cs)
  case Nil
  then show ?case by simp
next
  case (Cons e es)
  then obtain c where c: "extract_comment e = Some c"
    by (auto simp: valid_element_def)
  show ?case
  proof (cases "cap_reached (Some m) (cs @ [c])")
    case True
    then show ?thesis
      using c Cons.prems by (simp add: cap_reached_def)
  next
    case False
    then have "int (length (cs @ [c])) < m"
      using Cons.prems by (simp add: cap_reached_def)
    then show ?thesis
      using c False Cons.IH [of "cs @ [c]"] Cons.prems by simp
  qed
qed

lemma body_valid:
  assumes "\<forall>e \<in> set es. valid_element e" and "loop_cond (Some 25) s"
    and "length (comments s) \<le> length es"
  shows "length (comments (loop_body (Some 25) es s))
           = min (min 25 (length es)) (length (comments s) + 10)"
proof -
  let ?n = "length (comments s)"
  let ?k = "nat (end_index (Some 25) (length es) ?n)"
  have lt: "int ?n < 25"
    using assms(2) by (simp add: loop_cond_def)
  have k: "?k = min (min (length es) (?n + 10)) 25"
    by (auto simp: end_index_def Let_def min_def nat_add_distrib)
  have w: "window (Some 25) es ?n = drop ?n (take ?k es)"
    by (rule window_drop_take) (simp add: k)
  have "\<forall>e \<in> set (window (Some 25) es ?n). valid_element e"
    unfolding w using assms(1) by (meson in_set_dropD in_set_takeD)
  then have "length (extract_range (Some 25) (window (Some 25) es ?n) (comments s))
               = min (nat 25) (?n + length (window (Some 25) es ?n))"
    using lt by (intro extract_range_valid) simp_all
  then show ?thesis
    using assms(3) lt by (simp add: w k)
qed

lemma steady_step:
  assumes "loads_steadily threads" and "k < 29"
  shows "length (threads k) \<le> length (threads (Suc k))"
    and "length (threads (Suc k)) = length (threads k) \<longrightarrow>
           (\<forall>j<30. k \<le> j \<longrightarrow> length (threads j) = length (threads k))"
proof -
  have "\<forall>k<29. length (threads k) \<le> length (threads (Suc k)) \<and>
        (length (threads (Suc k)) = length (threads k) \<longrightarrow>
           (\<forall>j<30. k \<le> j \<longrightarrow> length (threads j) = length (threads k)))"
    using assms(1) unfolding loads_steadily_def .
  then have c: "k < 29 \<longrightarrow> length (threads k) \<le> length (threads (Suc k)) \<and>
        (length (threads (Suc k)) = length (threads k) \<longrightarrow>
           (\<forall>j<30. k \<le> j \<longrightarrow> length (threads j) = length (threads k)))"
    by (rule spec)
  then have cc: "length (threads k) \<le> length (threads (Suc k)) \<and>
        (length (threads (Suc k)) = length (threads k) \<longrightarrow>
           (\<forall>j<30. k \<le> j \<longrightarrow> length (threads j) = length (threads k)))"
    using assms(2) by (rule mp)
  show "length (threads k) \<le> length (threads (Suc k))"
    using cc by (rule conjunct1)
  show "length (threads (Suc k)) = length (threads k) \<longrightarrow>
           (\<forall>j<30. k \<le> j \<longrightarrow> length (threads j) = length (threads k))"
    using cc by (rule conjunct2)
qed

lemma steady_mono:
  assumes "loads_steadily threads" and "i \<le> j" and "j < 30"
  shows "length (threads i) \<le> length (threads j)"
  using assms(2,3)
proof (induction j)
  case 0
  then show ?case by simp
next
  case (Suc j)
  show ?case
  proof (cases "i = Suc j")
    case True
    then show ?thesis by simp
  next
    case False
    then have ij: "i \<le> j" and j: "j < 29"
      using Suc.prems by simp_all
    have "length (threads i) \<le> length (threads j)"
      using ij j by (intro Suc.IH) simp_all
    moreover have "length (threads j) \<le> length (threads (Suc j))"
      using assms(1) j by (rule steady_step(1))
    ultimately show ?thesis
      by (rule le_trans)
  qed
qed

lemma steady_static:
  assumes "loads_steadily threads" and "k < 29"
    and "length (threads (Suc k)) = length (threads k)" and "k \<le> j" and "j < 30"
  shows "length (threads j) = length (threads k)"
proof -
  have "\<forall>j<30. k \<le> j \<longrightarrow> length (threads j) = length (threads k)"
    using steady_step(2) [OF assms(1,2)] assms(3) by (rule mp)
  then have "j < 30 \<longrightarrow> (k \<le> j \<longrightarrow> length (threads j) = length (threads k))"
    by (rule spec)
  then show ?thesis
    using assms(5,4) by (elim impE) assumption+
qed

lemma credit_step: "(M::nat) \<le> l + 10 * (r + 1) \<Longrightarrow> M \<le> min M (l + 10) + 10 * r"
  by (simp add: min_def)

lemma credit_left:
  "c < 3 \<Longrightarrow> k < 30 \<Longrightarrow> min (3 - (c + 1)) (30 - (k + 1)) + 1 = min (3 - c) (30 - (k::nat))"
  by (auto simp: min_def)

lemma exhausted_run:
  assumes "all_valid threads"
    and "\<forall>j. scroll_count s \<le> j \<and> j < 30 \<longrightarrow> length (threads j) = N"
    and "last_comment_count s = N"
    and "length (comments s) \<le> min 25 N"
    and "min 25 N \<le> length (comments s)
           + 10 * min (3 - consecutive_unchanged s) (30 - scroll_count s)"
  shows "length (comments (collect_loop (Some 25) threads s)) = min 25 N"
  using assms
proof (induction "Some (25::int)" threads s rule: collect_loop.induct)
  case (1 threads s)
  let ?b = "loop_body (Some 25) (threads (scroll_count s)) s"
  let ?n = "?b\<lparr>scroll_count := scroll_count ?b + 1\<rparr>"
  show ?case
  proof (cases "loop_cond (Some 25) s")
    case False
    have stop: "collect_loop (Some 25) threads s = s"
      using False by (rule collect_loop_stop)
    have "\<not> (int (length (comments s)) < 25 \<and> scroll_count s < 30 \<and> consecutive_unchanged s < 3)"
      using False unfolding loop_cond_def by simp
    then have d: "25 \<le> length (comments s) \<or>
        min (3 - consecutive_unchanged s) (30 - scroll_count s) = 0"
      by (auto simp: min_def)
    have ge: "min 25 N \<le> length (comments s)"
    proof (rule disjE [OF d])
      assume "25 \<le> length (comments s)"
      then show ?thesis
        by (rule min.coboundedI1)
    next
      assume z: "min (3 - consecutive_unchanged s) (30 - scroll_count s) = 0"
      show ?thesis
        using "1.prems"(5) unfolding z by simp
    qed
    show ?thesis
      unfolding stop using "1.prems"(4) ge by (rule le_antisym)
  next
    case True
    have "int (length (comments s)) < 25 \<and> scroll_count s < 30 \<and> consecutive_unchanged s < 3"
      using True unfolding loop_cond_def by simp
    then have lt: "scroll_count s < 30" "consecutive_unchanged s < 3" "length (comments s) < 25"
      by simp_all
    have nk: "length (threads (scroll_count s)) = N"
      using "1.prems"(2) lt(1) by simp
    have va: "\<forall>e \<in> set (threads (scroll_count s)). valid_element e"
      using "1.prems"(1) lt(1) by (simp add: all_valid_def)
    have "length (comments s) \<le> length (threads (scroll_count s))"
      using "1.prems"(4) unfolding nk by simp
    with va True have "length (comments ?b)
        = min (min 25 (length (threads (scroll_count s)))) (length (comments s) + 10)"
      by (rule body_valid)
    then have len: "length (comments ?b) = min (min 25 N) (length (comments s) + 10)"
      unfolding nk .
    show ?thesis
    proof (cases "cap_reached (Some 25) (comments ?b)")
      case c: True
      have eq: "collect_loop (Some 25) threads s = ?b"
        using collect_loop_break [where mc = "Some 25" and s = s and threads = threads, OF True c] .
      have "25 \<le> int (length (comments ?b))"
        using c unfolding cap_reached_def by simp
      then have "25 \<le> length (comments ?b)"
        by linarith
      then show ?thesis
        unfolding eq len by linarith
    next
      case c: False
      have sc: "scroll_count ?b = scroll_count s"
        by (rule body_scroll)
      have eq: "collect_loop (Some 25) threads s = collect_loop (Some 25) threads ?n"
        using collect_loop_step [where mc = "Some 25" and s = s and threads = threads, OF True c]
        unfolding sc .
      have cn: "comments ?n = comments ?b"
        by simp
      have la: "last_comment_count ?n = N"
        using "1.prems"(3) by (simp add: nk)
      have cu: "consecutive_unchanged ?n = consecutive_unchanged s + 1"
        using "1.prems"(3) by (simp add: nk)
      have sn: "scroll_count ?n = scroll_count s + 1"
        by simp
      have p5: "min 25 N \<le> length (comments s)
          + 10 * (min (3 - (consecutive_unchanged s + 1)) (30 - (scroll_count s + 1)) + 1)"
        using "1.prems"(5) unfolding credit_left [OF lt(2,1)] .
      have "length (comments (collect_loop (Some 25) threads ?n)) = min 25 N"
      proof (rule "1.hyps" [OF True refl c "1.prems"(1)])
        show "\<forall>j. scroll_count ?n \<le> j \<and> j < 30 \<longrightarrow> length (threads j) = N"
          unfolding sn using "1.prems"(2) by simp
        show "last_comment_count ?n = N"
          by (rule la)
        show "length (comments ?n) \<le> min 25 N"
          unfolding cn len by linarith
        show "min 25 N \<le> length (comments ?n)
           + 10 * min (3 - consecutive_unchanged ?n) (30 - scroll_count ?n)"
          unfolding cn len cu sn using p5 by (rule credit_step)
      qed
      then show ?thesis
        unfolding eq .
    qed
  qed
qed

lemma progress_step:
  "(k::nat) \<le> n \<Longrightarrow> min 25 (k - 1) \<le> l \<Longrightarrow> min 25 (k + 1 - 1) \<le> min (min 25 n) (l + 10)"
  by (cases k) (auto simp: min_def split: if_splits)

lemma growing_run:
  assumes "all_valid threads" and "loads_steadily threads"
    and "scroll_count s \<le> 30"
    and "last_comment_count s
           = (if scroll_count s = 0 then 0 else length (threads (scroll_count s - 1)))"
    and "length (comments s) \<le> min 25 (last_comment_count s)"
    and "min 25 (scroll_count s - 1) \<le> length (comments s)"
    and "scroll_count s \<le> last_comment_count s + 1"
    and "consecutive_unchanged s = 0 \<or>
         (consecutive_unchanged s = 1 \<and> last_comment_count s = 0 \<and> scroll_count s = 1)"
  shows "length (comments (collect_loop (Some 25) threads s)) = min 25 (length (threads 29))"
  using assms
proof (induction "Some (25::int)" threads s rule: collect_loop.induct)
  case (1 threads s)
  let ?k = "scroll_count s"
  let ?b = "loop_body (Some 25) (threads ?k) s"
  let ?n = "?b\<lparr>scroll_count := scroll_count ?b + 1\<rparr>"
  note av = "1.prems"(1) and ls = "1.prems"(2) and g0 = "1.prems"(3) and g1 = "1.prems"(4)
    and g2 = "1.prems"(5) and g3 = "1.prems"(6) and g4 = "1.prems"(7) and g5 = "1.prems"(8)
  have last_le: "last_comment_count s \<le> length (threads 29)"
  proof (cases "?k = 0")
    case True
    then show ?thesis
      using g1 by simp
  next
    case False
    then have "?k - 1 \<le> 29"
      using g0 by simp
    then have "length (threads (?k - 1)) \<le> length (threads 29)"
      using ls by (intro steady_mono) simp_all
    then show ?thesis
      using g1 False by simp
  qed
  show ?case
  proof (cases "loop_cond (Some 25) s")
    case False
    have stop: "collect_loop (Some 25) threads s = s"
      using False by (rule collect_loop_stop)
    have "\<not> (int (length (comments s)) < 25 \<and> ?k < 30 \<and> consecutive_unchanged s < 3)"
      using False unfolding loop_cond_def by simp
    then have "25 \<le> length (comments s) \<or> ?k = 30"
      using g5 g0 by auto
    then have "25 \<le> length (comments s)"
      using g3 by auto
    then have "length (comments s) = 25" and "25 \<le> last_comment_count s"
      using g2 by simp_all
    then show ?thesis
      unfolding stop using last_le by simp
  next
    case True
    have "int (length (comments s)) < 25 \<and> ?k < 30 \<and> consecutive_unchanged s < 3"
      using True unfolding loop_cond_def by simp
    then have lt: "?k < 30" "consecutive_unchanged s < 3" "length (comments s) < 25"
      by simp_all
    have va: "\<forall>e \<in> set (threads ?k). valid_element e"
      using av lt(1) by (simp add: all_valid_def)
    have nk_le: "length (threads ?k) \<le> length (threads 29)"
      using ls lt(1) by (intro steady_mono) simp_all
    have sc: "scroll_count ?b = ?k"
      by (rule body_scroll)
    have cn: "comments ?n = comments ?b"
      by simp
    have sn: "scroll_count ?n = ?k + 1"
      by simp
    show ?thesis
    proof (cases "last_comment_count s < length (threads ?k)")
      case grow: True
      have "length (comments s) \<le> length (threads ?k)"
        using g2 grow by simp
      with va True have len: "length (comments ?b)
          = min (min 25 (length (threads ?k))) (length (comments s) + 10)"
        by (rule body_valid)
      show ?thesis
      proof (cases "cap_reached (Some 25) (comments ?b)")
        case c: True
        have eq: "collect_loop (Some 25) threads s = ?b"
          using collect_loop_break [where mc = "Some 25" and s = s and threads = threads, OF True c] .
        have "25 \<le> int (length (comments ?b))"
          using c unfolding cap_reached_def by simp
        then have "25 \<le> length (comments ?b)"
          by linarith
        then have "length (comments ?b) = 25" and "25 \<le> length (threads ?k)"
          unfolding len by simp_all
        then show ?thesis
          unfolding eq using nk_le by simp
      next
        case c: False
        have eq: "collect_loop (Some 25) threads s = collect_loop (Some 25) threads ?n"
          using collect_loop_step [where mc = "Some 25" and s = s and threads = threads, OF True c]
          unfolding sc .
        have la: "last_comment_count ?n = length (threads ?k)"
          using grow by simp
        have cu: "consecutive_unchanged ?n = 0"
          using grow by simp
        have kn: "?k \<le> length (threads ?k)"
          using g4 grow by simp
        have "length (comments (collect_loop (Some 25) threads ?n)) = min 25 (length (threads 29))"
        proof (rule "1.hyps" [OF True refl c av ls])
          show "scroll_count ?n \<le> 30"
            unfolding sn using lt(1) by simp
          show "last_comment_count ?n
                 = (if scroll_count ?n = 0 then 0 else length (threads (scroll_count ?n - 1)))"
            unfolding sn la by simp
          show "length (comments ?n) \<le> min 25 (last_comment_count ?n)"
            unfolding cn len la by (rule min.cobounded1)
          show "min 25 (scroll_count ?n - 1) \<le> length (comments ?n)"
            unfolding cn len sn using kn g3 by (rule progress_step)
          show "scroll_count ?n \<le> last_comment_count ?n + 1"
            unfolding sn la using kn by simp
          show "consecutive_unchanged ?n = 0 \<or>
                (consecutive_unchanged ?n = 1 \<and> last_comment_count ?n = 0 \<and> scroll_count ?n = 1)"
            using cu by simp
        qed
        then show ?thesis
          unfolding eq .
      qed
    next
      case nogrow: False
      show ?thesis
      proof (cases "?k = 0")
        case k0: True
        have l0: "last_comment_count s = 0"
          using g1 k0 by simp
        then have n0: "length (threads ?k) = 0"
          using nogrow by simp
        have c0: "length (comments s) = 0"
          using g2 l0 by simp
        have u0: "consecutive_unchanged s = 0"
          using g5 k0 by simp
        have "length (comments s) \<le> length (threads ?k)"
          using c0 by simp
        with va True have "length (comments ?b)
            = min (min 25 (length (threads ?k))) (length (comments s) + 10)"
          by (rule body_valid)
        then have len: "length (comments ?b) = 0"
          unfolding n0 by simp
        have c: "\<not> cap_reached (Some 25) (comments ?b)"
          unfolding cap_reached_def using len by simp
        have eq: "collect_loop (Some 25) threads s = collect_loop (Some 25) threads ?n"
          using collect_loop_step [where mc = "Some 25" and s = s and threads = threads, OF True c]
          unfolding sc .
        have la: "last_comment_count ?n = 0"
          using l0 n0 by simp
        have cu: "consecutive_unchanged ?n = 1"
          using l0 n0 u0 by simp
        have "length (comments (collect_loop (Some 25) threads ?n)) = min 25 (length (threads 29))"
        proof (rule "1.hyps" [OF True refl c av ls])
          show "scroll_count ?n \<le> 30"
            unfolding sn using lt(1) by simp
          show "last_comment_count ?n
                 = (if scroll_count ?n = 0 then 0 else length (threads (scroll_count ?n - 1)))"
            unfolding sn la using n0 k0 by simp
          show "length (comments ?n) \<le> min 25 (last_comment_count ?n)"
            unfolding cn len la by simp
          show "min 25 (scroll_count ?n - 1) \<le> length (comments ?n)"
            unfolding cn len sn using k0 by simp
          show "scroll_count ?n \<le> last_comment_count ?n + 1"
            unfolding sn la using k0 by simp
          show "consecutive_unchanged ?n = 0 \<or>
                (consecutive_unchanged ?n = 1 \<and> last_comment_count ?n = 0 \<and> scroll_count ?n = 1)"
            unfolding sn using cu la k0 by simp
        qed
        then show ?thesis
          unfolding eq .
      next
        case kp: False
        obtain k where k: "?k = Suc k"
          using kp by (cases "?k") simp_all
        have k29: "k < 29"
          using lt(1) k by simp
        have l: "last_comment_count s = length (threads k)"
          using g1 k by simp
        have "length (threads k) \<le> length (threads (Suc k))"
          using ls k29 by (rule steady_step(1))
        moreover have "length (threads (Suc k)) \<le> length (threads k)"
          using nogrow l k by simp
        ultimately have same: "length (threads (Suc k)) = length (threads k)"
          by simp
        have st: "length (threads j) = length (threads k)" if "k \<le> j" and "j < 30" for j
          using ls k29 same that by (rule steady_static)
        have N: "length (threads 29) = last_comment_count s"
          unfolding l using k29 by (intro st) simp_all
        show ?thesis
          unfolding N
        proof (rule exhausted_run [OF av])
          show "\<forall>j. ?k \<le> j \<and> j < 30 \<longrightarrow> length (threads j) = last_comment_count s"
            unfolding l k
          proof (intro allI impI)
            fix j
            assume "Suc k \<le> j \<and> j < 30"
            then show "length (threads j) = length (threads k)"
              by (intro st) simp_all
          qed
          show "last_comment_count s = last_comment_count s"
            by (rule refl)
          show "length (comments s) \<le> min 25 (last_comment_count s)"
            by (rule g2)
          show "min 25 (last_comment_count s) \<le> length (comments s)
                 + 10 * min (3 - consecutive_unchanged s) (30 - ?k)"
          proof (rule disjE [OF g5])
            assume u: "consecutive_unchanged s = 0"
            have "?k \<le> 27"
            proof (rule ccontr)
              assume "\<not> ?k \<le> 27"
              then have "min 25 (?k - 1) = 25"
                by simp
              with g3 lt(3) show False
                by simp
            qed
            then have "min (3 - consecutive_unchanged s) (30 - ?k) = 3"
              unfolding u by simp
            then show ?thesis
              by simp
          next
            assume "consecutive_unchanged s = 1 \<and> last_comment_count s = 0 \<and> ?k = 1"
            then show ?thesis
              by simp
          qed
        qed
      qed
    qed
  qed
qed

lemma steady_init:
  assumes "all_valid threads" and "loads_steadily threads"
  shows "length (comments (collect_loop (Some 25) threads init_state)) = min 25 (length (threads 29))"
  using assms by (rule growing_run) (simp_all add: init_state_def)

lemma result_length_scrape:
  assumes "extract_video_id parse_v u = Inr (Some vid)" and "vid \<noteq> []" and "comments_section w"
  shows "result_length (scrape_comments parse_v w u mc sort_by)
           = Some (length (final_comments mc (comments (collect_loop mc (comment_threads w) init_state))))"
  using scrape_comments_Some [OF assms, of mc sort_by] by (auto simp: result_length_def)

lemma end_index_le: "nat (end_index mc (length es) n) \<le> length es"
  by (auto simp: end_index_def Let_def min_def split: option.splits)

lemma window_eq: "window mc es n = drop n (take (nat (end_index mc (length es) n)) es)"
  using end_index_le by (rule window_drop_take)

lemma run_duplicate:
  "length (comments (collect_loop (Some 25)
      (comment_threads (static_env [blank_comment, good_comment])) init_state)) = 2"
  by (simp add: collect_loop.simps loop_cond_def loop_body_def track_growth_def window_eq
      end_index_def cap_reached_def init_state_def static_env_def extract_comment_good
      extract_comment_blank Let_def)

lemma run_late:
  "length (comments (collect_loop (Some 25) (comment_threads (late_env [good_comment])) init_state)) = 0"
  by (simp add: collect_loop.simps loop_cond_def loop_body_def track_growth_def window_eq
      end_index_def cap_reached_def init_state_def late_env_def Let_def)

lemma valid_good: "valid_element good_comment"
  by (simp add: valid_element_def extract_comment_good)

lemma invalid_blank: "\<not> valid_element blank_comment"
  by (simp add: valid_element_def extract_comment_blank)




end
